theory Spec2Isabelle
  imports Main
begin

section \<open>Data model\<close>

text \<open>
  Modelled from the spec: the declarations of \<open>TreeNode\<close> and \<open>TreeFamily\<close> live in
  \<open>./tree-layout\<close>, which is not among the sources. The records below carry exactly the
  fields that \<open>generateBookData\<close> reads, typed after the data model of the spec: optional
  fields are \<open>option\<close>s, numbers are integers. The family's \<open>handle\<close> is called
  \<open>fhandle\<close>, since two records cannot share a field name. The field \<open>generation\<close>
  is the externally supplied hint that the generator reads through \<open>(p as any).generation\<close>.
\<close>

record TreeNode =
  handle :: string
  displayName :: string
  gender :: int
  birthYear :: "int option"
  deathYear :: "int option"
  isLiving :: bool
  isPatrilineal :: bool
  families :: "string list"
  parentFamilies :: "string list"
  generation :: "int option"

record TreeFamily =
  fhandle :: string
  fatherHandle :: "string option"
  motherHandle :: "string option"
  children :: "string list"

text \<open>The entries of \<open>BookPerson.children\<close>.\<close>

record BookChild =
  bc_name :: string
  bc_years :: string
  bc_note :: "string option"

text \<open>\<open>BookPerson\<close>, \<open>BookChapter\<close>, \<open>BookData\<close> and the entries of \<open>nameIndex\<close>, field by
  field as the interfaces declare them (prefixed where a name is taken already).\<close>

record BookPerson =
  bp_handle :: string
  bp_name :: string
  bp_gender :: int
  bp_birthYear :: "int option"
  bp_deathYear :: "int option"
  bp_isLiving :: bool
  bp_isPatrilineal :: bool
  bp_generation :: int
  fatherName :: "string option"
  motherName :: "string option"
  spouseName :: "string option"
  spouseYears :: "string option"
  spouseNote :: "string option"
  bp_children :: "BookChild list"
  childIndex :: "int option"

record BookChapter =
  ch_generation :: int
  title :: string
  ch_romanNumeral :: string
  members :: "BookPerson list"

record NameEntry =
  ne_name :: string
  ne_generation :: int
  ne_isPatrilineal :: bool

record BookData =
  familyName :: string
  exportDate :: string
  totalGenerations :: int
  totalMembers :: int
  totalPatrilineal :: int
  chapters :: "BookChapter list"
  nameIndex :: "NameEntry list"

section \<open>JavaScript values\<close>

text \<open>A \<open>Map\<close> keeps its entries in insertion order: an association list. \<open>set\<close> replaces
  the value of a key that is there, in place, and appends a new key at the end.\<close>

definition Map_has :: "('k \<times> 'v) list \<Rightarrow> 'k \<Rightarrow> bool" where
  "Map_has m k = (map_of m k \<noteq> None)"

definition Map_get :: "('k \<times> 'v) list \<Rightarrow> 'k \<Rightarrow> 'v option" where
  "Map_get m k = map_of m k"

fun Map_set :: "('k \<times> 'v) list \<Rightarrow> 'k \<Rightarrow> 'v \<Rightarrow> ('k \<times> 'v) list" where
  "Map_set [] k v = [(k, v)]"
| "Map_set ((k', v') # m) k v = (if k' = k then (k, v) # m else (k', v') # Map_set m k v)"

text \<open>\<open>new Map(entries)\<close> sets the entries one after the other, so a later entry with the
  same key replaces an earlier one.\<close>

definition Map_new :: "('k \<times> 'v) list \<Rightarrow> ('k \<times> 'v) list" where
  "Map_new entries = fold (\<lambda>(k, v) m. Map_set m k v) entries []"

text \<open>Truthiness of an optional string (\<open>undefined\<close> and the empty string are falsy) and of
  an optional number (\<open>undefined\<close> and \<open>0\<close> are falsy).\<close>

fun truthy_string :: "string option \<Rightarrow> bool" where
  "truthy_string None = False"
| "truthy_string (Some s) = (s \<noteq> [])"

fun truthy_number :: "int option \<Rightarrow> bool" where
  "truthy_number None = False"
| "truthy_number (Some n) = (n \<noteq> 0)"

text \<open>The decimal numeral of an integer, as a template literal prints it.\<close>

fun string_of_nat :: "nat \<Rightarrow> string" where
  "string_of_nat n =
     (if n < 10 then [char_of (48 + n)]
      else string_of_nat (n div 10) @ [char_of (48 + n mod 10)])"

declare string_of_nat.simps [simp del]

definition toString :: "int \<Rightarrow> string" where
  "toString i = (if i < 0 then CHR ''-'' # string_of_nat (nat (- i)) else string_of_nat (nat i))"

section \<open>Helpers\<close>

definition ROMAN :: "string list" where
  "ROMAN = [''I'', ''II'', ''III'', ''IV'', ''V'', ''VI'', ''VII'', ''VIII'', ''IX'', ''X'',
    ''XI'', ''XII'', ''XIII'', ''XIV'', ''XV'', ''XVI'', ''XVII'', ''XVIII'', ''XIX'', ''XX'']"

text \<open>The UTF-8 bytes of the non-ASCII literals of the source.\<close>

definition THUY_TO :: string where
  "THUY_TO = [CHR ''T'', CHR ''H'', CHR 0xE1, CHR 0xBB, CHR 0xA6, CHR ''Y'', CHR '' '',
    CHR ''T'', CHR 0xE1, CHR 0xBB, CHR 0x94]"

definition DOI_THU :: string where
  "DOI_THU = [CHR 0xC4, CHR 0x90, CHR 0xE1, CHR 0xBB, CHR 0x9C, CHR ''I'', CHR '' '',
    CHR ''T'', CHR ''H'', CHR 0xE1, CHR 0xBB, CHR 0xA8, CHR '' '']"

definition em_dash :: string where
  "em_dash = [CHR 0xE2, CHR 0x80, CHR 0x94]"

definition en_dash :: string where
  "en_dash = [CHR 0xE2, CHR 0x80, CHR 0x93]"

definition NGOAI_TOC :: string where
  "NGOAI_TOC = [CHR ''N'', CHR ''g'', CHR ''o'', CHR 0xE1, CHR 0xBA, CHR 0xA1, CHR ''i'',
    CHR '' '', CHR ''t'', CHR 0xE1, CHR 0xBB, CHR 0x99, CHR ''c'']"

definition GEN_NAMES :: "int \<Rightarrow> string option" where
  "GEN_NAMES n = (if n = 0 then Some THUY_TO else None)"

text \<open>\<open>ROMAN[n] || `${n + 1}`\<close>: an index outside the table reads \<open>undefined\<close>.\<close>

definition romanNumeral :: "int \<Rightarrow> string" where
  "romanNumeral n =
     (if 0 \<le> n \<and> n < int (length ROMAN) then ROMAN ! nat n else toString (n + 1))"

definition genTitle :: "int \<Rightarrow> string" where
  "genTitle gen =
     (let roman = romanNumeral gen;
          name = (case GEN_NAMES gen of Some s \<Rightarrow> s | None \<Rightarrow> [])
      in if name \<noteq> [] then DOI_THU @ roman @ '' '' @ em_dash @ '' '' @ name
         else DOI_THU @ roman)"

definition formatYears :: "int option \<Rightarrow> int option \<Rightarrow> bool \<Rightarrow> string" where
  "formatYears birth death isLiving' =
     (if \<not> truthy_number birth then em_dash
      else if truthy_number death
        then toString (the birth) @ '' '' @ en_dash @ '' '' @ toString (the death)
      else if isLiving' then toString (the birth) @ '' '' @ en_dash @ '' nay''
      else toString (the birth))"

section \<open>Step 1: generations by breadth-first search from the roots\<close>

definition personMap :: "TreeNode list \<Rightarrow> (string \<times> TreeNode) list" where
  "personMap people = Map_new (map (\<lambda>p. (handle p, p)) people)"

definition familyMap :: "TreeFamily list \<Rightarrow> (string \<times> TreeFamily) list" where
  "familyMap fams = Map_new (map (\<lambda>f. (fhandle f, f)) fams)"

text \<open>The set of all handles that are a child in any family; only membership is asked.\<close>

definition childOfFamily :: "TreeFamily list \<Rightarrow> string set" where
  "childOfFamily fams = set (concat (map children fams))"

definition roots :: "TreeNode list \<Rightarrow> TreeFamily list \<Rightarrow> TreeNode list" where
  "roots people fams =
     filter (\<lambda>p. isPatrilineal p \<and> handle p \<notin> childOfFamily fams) people"

text \<open>What the body of the loop over \<open>person.families\<close> pushes for one family. The map
  \<open>generations\<close> does not change while the families of one person are traversed, so the
  pushes of one person are one list, appended to the queue.\<close>

definition enqueue_family :: "(string \<times> int) list \<Rightarrow> int \<Rightarrow> TreeFamily \<Rightarrow> (string \<times> int) list" where
  "enqueue_family generations gen fam =
     (case fatherHandle fam of
        Some f \<Rightarrow> if f \<noteq> [] \<and> \<not> Map_has generations f then [(f, gen)] else []
      | None \<Rightarrow> []) @
     (case motherHandle fam of
        Some m \<Rightarrow> if m \<noteq> [] \<and> \<not> Map_has generations m then [(m, gen)] else []
      | None \<Rightarrow> []) @
     map (\<lambda>ch. (ch, gen + 1)) (filter (\<lambda>ch. \<not> Map_has generations ch) (children fam))"

definition enqueue_families ::
  "(string \<times> TreeFamily) list \<Rightarrow> (string \<times> int) list \<Rightarrow> int \<Rightarrow> string list \<Rightarrow> (string \<times> int) list" where
  "enqueue_families fm generations gen famIds =
     concat (map (\<lambda>famId. case Map_get fm famId of
                                None \<Rightarrow> []
                              | Some fam \<Rightarrow> enqueue_family generations gen fam) famIds)"

text \<open>The \<open>while (queue.length > 0)\<close> loop. Its result is \<open>None\<close> if it does not return.\<close>

partial_function (option) bfs_loop ::
  "(string \<times> TreeNode) list \<Rightarrow> (string \<times> TreeFamily) list \<Rightarrow>
   (string \<times> int) list \<Rightarrow> (string \<times> int) list \<Rightarrow> (string \<times> int) list option" where
  "bfs_loop pm fm queue generations =
     (case queue of
        [] \<Rightarrow> Some generations
      | (h, gen) # rest \<Rightarrow>
          if Map_has generations h then bfs_loop pm fm rest generations
          else
            let generations' = Map_set generations h gen in
            (case Map_get pm h of
               None \<Rightarrow> bfs_loop pm fm rest generations'
             | Some person \<Rightarrow>
                 bfs_loop pm fm
                   (rest @ enqueue_families fm generations' gen (families person))
                   generations'))"

declare bfs_loop.simps [code]

text \<open>The pass over the people that the search did not reach.\<close>

definition fallbackGen :: "TreeNode \<Rightarrow> int" where
  "fallbackGen p = (if truthy_number (generation p) then the (generation p) - 1 else 0)"

definition fallback_step :: "TreeNode \<Rightarrow> (string \<times> int) list \<Rightarrow> (string \<times> int) list" where
  "fallback_step p generations =
     (if \<not> Map_has generations (handle p)
      then Map_set generations (handle p) (fallbackGen p)
      else generations)"

definition fallback :: "TreeNode list \<Rightarrow> (string \<times> int) list \<Rightarrow> (string \<times> int) list" where
  "fallback people generations = fold fallback_step people generations"

definition bfs_generations :: "TreeNode list \<Rightarrow> TreeFamily list \<Rightarrow> (string \<times> int) list option" where
  "bfs_generations people fams =
     bfs_loop (personMap people) (familyMap fams)
       (map (\<lambda>r. (handle r, 0)) (roots people fams)) []"

definition assignGenerations :: "TreeNode list \<Rightarrow> TreeFamily list \<Rightarrow> (string \<times> int) list option" where
  "assignGenerations people fams = map_option (fallback people) (bfs_generations people fams)"

section \<open>Step 2: the entries of the patrilineal people\<close>

text \<open>One turn of the loop over \<open>p.parentFamilies\<close>; the state is the pair
  \<open>(fatherName, motherName)\<close>. The loop has no \<open>break\<close>.\<close>

definition parent_step ::
  "(string \<times> TreeNode) list \<Rightarrow> (string \<times> TreeFamily) list \<Rightarrow> string \<Rightarrow>
   string option \<times> string option \<Rightarrow> string option \<times> string option" where
  "parent_step pm fm pfId names =
     (case Map_get fm pfId of
        None \<Rightarrow> names
      | Some pf \<Rightarrow>
          (let fatherName' =
                 (if truthy_string (fatherHandle pf)
                  then (case Map_get pm (the (fatherHandle pf)) of
                          Some father \<Rightarrow> Some (displayName father)
                        | None \<Rightarrow> fst names)
                  else fst names);
               motherName' =
                 (if truthy_string (motherHandle pf)
                  then (case Map_get pm (the (motherHandle pf)) of
                          Some mother \<Rightarrow> Some (displayName mother)
                        | None \<Rightarrow> snd names)
                  else snd names)
           in (fatherName', motherName')))"

definition parentNames ::
  "(string \<times> TreeNode) list \<Rightarrow> (string \<times> TreeFamily) list \<Rightarrow> TreeNode \<Rightarrow>
   string option \<times> string option" where
  "parentNames pm fm p = fold (parent_step pm fm) (parentFamilies p) (None, None)"

text \<open>The state of the loop over \<open>p.families\<close>: the three spouse variables and the
  children collected so far.\<close>

record SpouseState =
  st_spouseName :: "string option"
  st_spouseYears :: "string option"
  st_spouseNote :: "string option"
  st_children :: "BookChild list"

definition childEntries :: "(string \<times> TreeNode) list \<Rightarrow> TreeFamily \<Rightarrow> BookChild list" where
  "childEntries pm fam =
     concat (map (\<lambda>childHandle.
       case Map_get pm childHandle of
         None \<Rightarrow> []
       | Some child \<Rightarrow>
           [\<lparr>bc_name = displayName child,
             bc_years = formatYears (birthYear child) (deathYear child) (isLiving child),
             bc_note = (if \<not> isPatrilineal child then Some NGOAI_TOC else None)\<rparr>])
       (children fam))"

definition spouseHandle :: "TreeNode \<Rightarrow> TreeFamily \<Rightarrow> string option" where
  "spouseHandle p fam =
     (if fatherHandle fam = Some (handle p) then motherHandle fam else fatherHandle fam)"

definition family_step ::
  "(string \<times> TreeNode) list \<Rightarrow> (string \<times> TreeFamily) list \<Rightarrow> TreeNode \<Rightarrow> string \<Rightarrow>
   SpouseState \<Rightarrow> SpouseState" where
  "family_step pm fm p famId st =
     (case Map_get fm famId of
        None \<Rightarrow> st
      | Some fam \<Rightarrow>
          (let st' =
                 (if truthy_string (spouseHandle p fam)
                  then (case Map_get pm (the (spouseHandle p fam)) of
                          None \<Rightarrow> st
                        | Some spouse \<Rightarrow>
                            st\<lparr>st_spouseName := Some (displayName spouse),
                               st_spouseYears :=
                                 Some (formatYears (birthYear spouse) (deathYear spouse)
                                         (isLiving spouse)),
                               st_spouseNote :=
                                 (if \<not> isPatrilineal spouse then Some NGOAI_TOC
                                  else st_spouseNote st)\<rparr>)
                  else st)
           in st'\<lparr>st_children := st_children st' @ childEntries pm fam\<rparr>))"

definition spouseAndChildren ::
  "(string \<times> TreeNode) list \<Rightarrow> (string \<times> TreeFamily) list \<Rightarrow> TreeNode \<Rightarrow> SpouseState" where
  "spouseAndChildren pm fm p =
     fold (family_step pm fm p) (families p)
       \<lparr>st_spouseName = None, st_spouseYears = None, st_spouseNote = None, st_children = []\<rparr>"

text \<open>\<open>Array.prototype.indexOf\<close>: the first position of the element, or \<open>-1\<close>.\<close>

fun indexOf :: "'a list \<Rightarrow> 'a \<Rightarrow> int" where
  "indexOf [] x = - 1"
| "indexOf (y # ys) x =
     (if y = x then 0 else (let i = indexOf ys x in if i < 0 then - 1 else i + 1))"

definition childIndexOf :: "(string \<times> TreeFamily) list \<Rightarrow> TreeNode \<Rightarrow> int option" where
  "childIndexOf fm p =
     (case parentFamilies p of
        [] \<Rightarrow> None
      | pf0 # _ \<Rightarrow>
          (case Map_get fm pf0 of
             None \<Rightarrow> None
           | Some pf \<Rightarrow>
               (let idx = indexOf (children pf) (handle p)
                in if idx \<ge> 0 then Some (idx + 1) else None)))"

definition bookPerson ::
  "(string \<times> TreeNode) list \<Rightarrow> (string \<times> TreeFamily) list \<Rightarrow> (string \<times> int) list \<Rightarrow>
   TreeNode \<Rightarrow> BookPerson" where
  "bookPerson pm fm generations p =
     (let gen = (case Map_get generations (handle p) of Some g \<Rightarrow> g | None \<Rightarrow> 0);
          names = parentNames pm fm p;
          st = spouseAndChildren pm fm p
      in \<lparr>bp_handle = handle p,
          bp_name = displayName p,
          bp_gender = gender p,
          bp_birthYear = birthYear p,
          bp_deathYear = deathYear p,
          bp_isLiving = isLiving p,
          bp_isPatrilineal = isPatrilineal p,
          bp_generation = gen,
          fatherName = fst names,
          motherName = snd names,
          spouseName = st_spouseName st,
          spouseYears = st_spouseYears st,
          spouseNote = st_spouseNote st,
          bp_children = st_children st,
          childIndex = childIndexOf fm p\<rparr>)"

definition bookPersons ::
  "(string \<times> TreeNode) list \<Rightarrow> (string \<times> TreeFamily) list \<Rightarrow> (string \<times> int) list \<Rightarrow>
   TreeNode list \<Rightarrow> BookPerson list" where
  "bookPersons pm fm generations people =
     map (bookPerson pm fm generations) (filter isPatrilineal people)"

section \<open>Steps 3 and 4: chapters and name index\<close>

text \<open>\<open>Array.prototype.sort\<close> with a comparator is stable. For a comparator that is a
  total preorder, as the two of this program are, the result is the one of stable
  insertion: an element goes before the first element that it does not compare greater
  than.\<close>

fun insert_by :: "('a \<Rightarrow> 'a \<Rightarrow> int) \<Rightarrow> 'a \<Rightarrow> 'a list \<Rightarrow> 'a list" where
  "insert_by cmp x [] = [x]"
| "insert_by cmp x (y # ys) = (if cmp x y \<le> 0 then x # y # ys else y # insert_by cmp x ys)"

definition Array_sort :: "('a \<Rightarrow> 'a \<Rightarrow> int) \<Rightarrow> 'a list \<Rightarrow> 'a list" where
  "Array_sort cmp xs = foldr (insert_by cmp) xs []"

text \<open>\<open>a.childIndex ?? 99\<close>.\<close>

definition sortKey :: "BookPerson \<Rightarrow> int" where
  "sortKey bp = (case childIndex bp of Some i \<Rightarrow> i | None \<Rightarrow> 99)"

definition maxGen :: "(string \<times> int) list \<Rightarrow> int" where
  "maxGen generations = fold max (map snd generations) 0"

definition chapterMembers :: "BookPerson list \<Rightarrow> int \<Rightarrow> BookPerson list" where
  "chapterMembers bps g =
     Array_sort (\<lambda>a b. sortKey a - sortKey b) (filter (\<lambda>bp. bp_generation bp = g) bps)"

definition buildChapters :: "BookPerson list \<Rightarrow> int \<Rightarrow> BookChapter list" where
  "buildChapters bps mg =
     concat (map (\<lambda>g.
       let ms = chapterMembers bps g
       in if length ms = 0 then []
          else [\<lparr>ch_generation = g, title = genTitle g,
                  ch_romanNumeral = romanNumeral g, members = ms\<rparr>])
       [0..mg])"

definition buildNameIndex ::
  "(string \<Rightarrow> string \<Rightarrow> int) \<Rightarrow> (string \<times> int) list \<Rightarrow> TreeNode list \<Rightarrow> NameEntry list" where
  "buildNameIndex localeCompare generations people =
     Array_sort (\<lambda>a b. localeCompare (ne_name a) (ne_name b))
       (map (\<lambda>p. \<lparr>ne_name = displayName p,
                    ne_generation = (case Map_get generations (handle p) of Some g \<Rightarrow> g | None \<Rightarrow> 0),
                    ne_isPatrilineal = isPatrilineal p\<rparr>) people)"

section \<open>The generator\<close>

definition HOANG :: string where
  "HOANG = [CHR ''H'', CHR ''o'', CHR 0xC3, CHR 0xA0, CHR ''n'', CHR ''g'']"

text \<open>
  The generator reads two things of the platform that are not arguments of the source
  function: the collation of \<open>localeCompare(_, 'vi')\<close>, here the parameter
  \<open>localeCompare\<close>, and the clock, here the parameter \<open>today\<close>: the string that
  \<open>new Date().toLocaleDateString('vi-VN', ...)\<close> returns at the moment of the call.
  The optional argument \<open>familyName\<close> defaults when it is not given. The result is
  \<open>None\<close> if the search loop does not return.
\<close>

definition generateBookData ::
  "(string \<Rightarrow> string \<Rightarrow> int) \<Rightarrow> string \<Rightarrow> TreeNode list \<Rightarrow> TreeFamily list \<Rightarrow> string option \<Rightarrow>
   BookData option" where
  "generateBookData localeCompare today people fams familyName' =
     (case assignGenerations people fams of
        None \<Rightarrow> None
      | Some generations \<Rightarrow>
          (let pm = personMap people;
               fm = familyMap fams;
               bps = bookPersons pm fm generations people;
               mg = maxGen generations
           in Some \<lparr>familyName = (case familyName' of Some n \<Rightarrow> n | None \<Rightarrow> HOANG),
                    exportDate = today,
                    totalGenerations = mg + 1,
                    totalMembers = int (length people),
                    totalPatrilineal = int (length (filter isPatrilineal people)),
                    chapters = buildChapters bps mg,
                    nameIndex = buildNameIndex localeCompare generations people\<rparr>))"

section \<open>Notions used in the statements and proofs\<close>

text \<open>What visiting the handle \<open>h\<close> at generation \<open>gen\<close> appends to the queue.\<close>

definition expand ::
  "(string \<times> TreeNode) list \<Rightarrow> (string \<times> TreeFamily) list \<Rightarrow> (string \<times> int) list \<Rightarrow>
   string \<Rightarrow> int \<Rightarrow> (string \<times> int) list" where
  "expand pm fm generations h gen =
     (case Map_get pm h of
        None \<Rightarrow> []
      | Some person \<Rightarrow> enqueue_families fm generations gen (families person))"

text \<open>The handles that a family names, and the handles that any family of the map names.\<close>

definition family_handles :: "TreeFamily \<Rightarrow> string set" where
  "family_handles fam =
     set_option (fatherHandle fam) \<union> set_option (motherHandle fam) \<union> set (children fam)"

definition universe :: "(string \<times> TreeFamily) list \<Rightarrow> string set" where
  "universe fm = (\<Union>fam \<in> snd ` set fm. family_handles fam)"

text \<open>The handles that may still be assigned: the variant of the search loop.\<close>

definition pending ::
  "(string \<times> TreeFamily) list \<Rightarrow> (string \<times> int) list \<Rightarrow> (string \<times> int) list \<Rightarrow> string set" where
  "pending fm q gens = (universe fm \<union> fst ` set q) - fst ` set gens"

text \<open>The lifespan string as the specification words it, with the separator and the word
  for "present" that the source prints: the placeholder without a birth year, both years
  when both are there, birth and "present" for the living, the birth year alone otherwise.\<close>

definition spec_formatYears :: "int option \<Rightarrow> int option \<Rightarrow> bool \<Rightarrow> string" where
  "spec_formatYears birth death living =
     (case birth of
        None \<Rightarrow> em_dash
      | Some b \<Rightarrow>
          (case death of
             Some d \<Rightarrow> toString b @ '' '' @ en_dash @ '' '' @ toString d
           | None \<Rightarrow> if living then toString b @ '' '' @ en_dash @ '' nay'' else toString b))"

text \<open>A number that is \<open>0\<close> counts as absent.\<close>

definition nonzero :: "int option \<Rightarrow> int option" where
  "nonzero x = (if x = Some 0 then None else x)"

text \<open>The fallback generation as the specification words it: the hint less one when
  a hint is present, else \<open>0\<close>.\<close>

definition spec_fallbackGen :: "int option \<Rightarrow> int" where
  "spec_fallbackGen hint = (case hint of Some n \<Rightarrow> n - 1 | None \<Rightarrow> 0)"

text \<open>The display name of the person that a parent slot of a family resolves to: the slot
  is truthy and the person map has the handle.\<close>

definition resolvedName :: "(string \<times> TreeNode) list \<Rightarrow> string option \<Rightarrow> string option" where
  "resolvedName pm h =
     (if truthy_string h then map_option displayName (Map_get pm (the h)) else None)"

text \<open>The names that the loop over \<open>parentFamilies\<close> finds for the father and for the
  mother, in the order of the list; the spouses that the loop over \<open>families\<close> finds; the
  families of a list of identifiers that the family map has.\<close>

definition fatherCandidates ::
  "(string \<times> TreeNode) list \<Rightarrow> (string \<times> TreeFamily) list \<Rightarrow> string list \<Rightarrow> string list" where
  "fatherCandidates pm fm ids =
     List.map_filter (\<lambda>pfId. case Map_get fm pfId of
                                  None \<Rightarrow> None
                                | Some pf \<Rightarrow> resolvedName pm (fatherHandle pf)) ids"

definition motherCandidates ::
  "(string \<times> TreeNode) list \<Rightarrow> (string \<times> TreeFamily) list \<Rightarrow> string list \<Rightarrow> string list" where
  "motherCandidates pm fm ids =
     List.map_filter (\<lambda>pfId. case Map_get fm pfId of
                                  None \<Rightarrow> None
                                | Some pf \<Rightarrow> resolvedName pm (motherHandle pf)) ids"

definition last_option :: "'a list \<Rightarrow> 'a option" where
  "last_option xs = (if xs = [] then None else Some (last xs))"

definition resolvedFamilies :: "(string \<times> TreeFamily) list \<Rightarrow> string list \<Rightarrow> TreeFamily list" where
  "resolvedFamilies fm ids = List.map_filter (Map_get fm) ids"

definition spouseCandidates ::
  "(string \<times> TreeNode) list \<Rightarrow> (string \<times> TreeFamily) list \<Rightarrow> TreeNode \<Rightarrow> string list \<Rightarrow> TreeNode list" where
  "spouseCandidates pm fm p ids =
     List.map_filter (\<lambda>famId. case Map_get fm famId of
         None \<Rightarrow> None
       | Some fam \<Rightarrow> if truthy_string (spouseHandle p fam)
                     then Map_get pm (the (spouseHandle p fam)) else None) ids"

text \<open>The parent names as the specification words them: those of the first parent union, in
  list order, that records a father or a mother.\<close>

definition spec_parentNames ::
  "(string \<times> TreeNode) list \<Rightarrow> (string \<times> TreeFamily) list \<Rightarrow> TreeNode \<Rightarrow>
   string option \<times> string option" where
  "spec_parentNames pm fm p =
     (case filter (\<lambda>pf. truthy_string (fatherHandle pf) \<or> truthy_string (motherHandle pf))
             (resolvedFamilies fm (parentFamilies p)) of
        [] \<Rightarrow> (None, None)
      | pf # _ \<Rightarrow> (resolvedName pm (fatherHandle pf), resolvedName pm (motherHandle pf)))"

text \<open>All entries of a book, chapter after chapter.\<close>

definition bookEntries :: "BookData option \<Rightarrow> BookPerson list" where
  "bookEntries r = (case r of None \<Rightarrow> [] | Some bd \<Rightarrow> concat (map members (chapters bd)))"

text \<open>One turn of the search loop on the state: the queue and the generations. The loop
  is this turn, repeated until the queue is empty.\<close>

definition bfs_turn ::
  "(string \<times> TreeNode) list \<Rightarrow> (string \<times> TreeFamily) list \<Rightarrow>
   (string \<times> int) list \<times> (string \<times> int) list \<Rightarrow> (string \<times> int) list \<times> (string \<times> int) list" where
  "bfs_turn pm fm s =
     (case fst s of
        [] \<Rightarrow> s
      | (h, gen) # rest \<Rightarrow>
          if Map_has (snd s) h then (rest, snd s)
          else (rest @ expand pm fm (Map_set (snd s) h gen) h gen, Map_set (snd s) h gen))"

text \<open>The handle that the next turn of the loop visits, if it visits one: the handle at
  the head of the queue, when it has no generation yet.\<close>

definition visited :: "(string \<times> int) list \<times> (string \<times> int) list \<Rightarrow> string option" where
  "visited s =
     (case fst s of
        [] \<Rightarrow> None
      | (h, gen) # rest \<Rightarrow> if Map_has (snd s) h then None else Some h)"

text \<open>The handles that are a child in some union of a person's \<open>families\<close>, and the
  handles in a parent slot of some such union.\<close>

definition childrenOfUnions :: "(string \<times> TreeFamily) list \<Rightarrow> TreeNode \<Rightarrow> string set" where
  "childrenOfUnions fm p = (\<Union>f \<in> set (resolvedFamilies fm (families p)). set (children f))"

definition parentsOfUnions :: "(string \<times> TreeFamily) list \<Rightarrow> TreeNode \<Rightarrow> string set" where
  "parentsOfUnions fm p =
     (\<Union>f \<in> set (resolvedFamilies fm (families p)).
        set_option (fatherHandle f) \<union> set_option (motherHandle f))"

section \<open>Example inputs\<close>

definition mkPerson :: "string \<Rightarrow> bool \<Rightarrow> string list \<Rightarrow> string list \<Rightarrow> int option \<Rightarrow> TreeNode" where
  "mkPerson h pat fs pfs hint =
     \<lparr>handle = h, displayName = h, gender = 1, birthYear = Some 1950, deathYear = None,
      isLiving = True, isPatrilineal = pat, families = fs, parentFamilies = pfs,
      generation = hint\<rparr>"

text \<open>The example of the specification: the root A, his wife B, their child C.\<close>

definition abcPeople :: "TreeNode list" where
  "abcPeople =
     [mkPerson ''A'' True [''u''] [] None,
      mkPerson ''B'' False [''u''] [] None,
      mkPerson ''C'' True [] [''u''] None]"

definition abcFamilies :: "TreeFamily list" where
  "abcFamilies =
     [\<lparr>fhandle = ''u'', fatherHandle = Some ''A'', motherHandle = Some ''B'',
       children = [''C'']\<rparr>]"

text \<open>A person apart from every root whose hint is \<open>0\<close>; a root and two people apart
  from it, one of them with the hint \<open>3\<close>.\<close>

definition zeroHintPeople :: "TreeNode list" where
  "zeroHintPeople = [mkPerson ''Z'' False [] [] (Some 0)]"

definition hintPeople :: "TreeNode list" where
  "hintPeople =
     [mkPerson ''A'' True [] [] None,
      mkPerson ''D'' False [] [] (Some 3),
      mkPerson ''E'' False [] [] None]"

text \<open>A collation for the examples, which do not depend on it.\<close>

definition exampleCompare :: "string \<Rightarrow> string \<Rightarrow> int" where
  "exampleCompare a b = 0"

text \<open>X is a child of two parent unions: the only child of F1 and M1 in the first, and
  the second child, after K, of F2 and M2 in the second.\<close>

definition twoUnionsPeople :: "TreeNode list" where
  "twoUnionsPeople =
     [mkPerson ''F1'' True [''u1''] [] None,
      mkPerson ''M1'' False [''u1''] [] None,
      mkPerson ''F2'' True [''u2''] [] None,
      mkPerson ''M2'' False [''u2''] [] None,
      mkPerson ''K'' True [] [''u2''] None,
      mkPerson ''X'' True [] [''u1'', ''u2''] None]"

definition twoUnionsFamilies :: "TreeFamily list" where
  "twoUnionsFamilies =
     [\<lparr>fhandle = ''u1'', fatherHandle = Some ''F1'', motherHandle = Some ''M1'', children = [''X'']\<rparr>,
      \<lparr>fhandle = ''u2'', fatherHandle = Some ''F2'', motherHandle = Some ''M2'',
        children = [''K'', ''X'']\<rparr>]"

text \<open>P is the father in two unions: first with S1, who married in, then with S2, who is of
  the lineage.\<close>

definition remarriedPeople :: "TreeNode list" where
  "remarriedPeople =
     [mkPerson ''P'' True [''u1'', ''u2''] [] None,
      mkPerson ''S1'' False [''u1''] [] None,
      mkPerson ''S2'' True [''u2''] [] None]"

definition remarriedFamilies :: "TreeFamily list" where
  "remarriedFamilies =
     [\<lparr>fhandle = ''u1'', fatherHandle = Some ''P'', motherHandle = Some ''S1'', children = []\<rparr>,
      \<lparr>fhandle = ''u2'', fatherHandle = Some ''P'', motherHandle = Some ''S2'', children = []\<rparr>]"

text \<open>A union without recorded parents and with a hundred children, all of the lineage and
  all present as people, and the root Q. No root leads to the children, so all of them
  get generation \<open>0\<close> by the fallback pass, as Q does as a root.\<close>

definition siblingHandles :: "string list" where
  "siblingHandles = map (\<lambda>i. ''c'' @ string_of_nat i) [1..<101]"

definition bigFamilyPeople :: "TreeNode list" where
  "bigFamilyPeople =
     map (\<lambda>h. mkPerson h True [] [''u''] None) siblingHandles @ [mkPerson ''Q'' True [] [] None]"

definition bigFamilyFamilies :: "TreeFamily list" where
  "bigFamilyFamilies =
     [\<lparr>fhandle = ''u'', fatherHandle = None, motherHandle = None, children = siblingHandles\<rparr>]"

text \<open>Three generations: the root R and his wife W, their child A and his wife B, and C,
  the child of A and B.\<close>

definition threeGenPeople :: "TreeNode list" where
  "threeGenPeople =
     [mkPerson ''R'' True [''u1''] [] None,
      mkPerson ''W'' False [''u1''] [] None,
      mkPerson ''A'' True [''u2''] [''u1''] None,
      mkPerson ''B'' False [''u2''] [] None,
      mkPerson ''C'' True [] [''u2''] None]"

definition threeGenFamilies :: "TreeFamily list" where
  "threeGenFamilies =
     [\<lparr>fhandle = ''u1'', fatherHandle = Some ''R'', motherHandle = Some ''W'', children = [''A'']\<rparr>,
      \<lparr>fhandle = ''u2'', fatherHandle = Some ''A'', motherHandle = Some ''B'', children = [''C'']\<rparr>]"

text \<open>A cycle in the unions: A is a child of the root R and his wife W, B a child of A,
  and A again a child of B.\<close>

definition cyclicPeople :: "TreeNode list" where
  "cyclicPeople =
     [mkPerson ''R'' True [''u0''] [] None,
      mkPerson ''W'' False [''u0''] [] None,
      mkPerson ''A'' True [''u1''] [''u0'', ''u2''] None,
      mkPerson ''B'' True [''u2''] [''u1''] None]"

definition cyclicFamilies :: "TreeFamily list" where
  "cyclicFamilies =
     [\<lparr>fhandle = ''u0'', fatherHandle = Some ''R'', motherHandle = Some ''W'', children = [''A'']\<rparr>,
      \<lparr>fhandle = ''u1'', fatherHandle = Some ''A'', motherHandle = None, children = [''B'']\<rparr>,
      \<lparr>fhandle = ''u2'', fatherHandle = Some ''B'', motherHandle = None, children = [''A'']\<rparr>]"

text \<open>Two records that carry one handle, against the uniqueness of handles.\<close>

definition duplicateHandlePeople :: "TreeNode list" where
  "duplicateHandlePeople =
     [mkPerson ''Z'' False [] [] (Some 3), mkPerson ''Z'' False [] [] (Some 5)]"

section \<open>Maps\<close>

lemma Map_has_keys: "Map_has m k \<longleftrightarrow> k \<in> fst ` set m"
  by (simp add: Map_has_def map_of_eq_None_iff)

lemma Map_has_get: "Map_has m k \<longleftrightarrow> (\<exists>v. Map_get m k = Some v)"
  by (simp add: Map_has_def Map_get_def)

lemma keys_Map_set: "fst ` set (Map_set m k v) = insert k (fst ` set m)"
  by (induction m k v rule: Map_set.induct) auto

lemma map_of_Map_set: "map_of (Map_set m k v) = (map_of m)(k \<mapsto> v)"
  by (induction m k v rule: Map_set.induct) auto

lemma Map_get_set: "Map_get (Map_set m k v) k' = (if k' = k then Some v else Map_get m k')"
  by (simp add: Map_get_def map_of_Map_set)

lemma Map_has_set: "Map_has (Map_set m k v) k' \<longleftrightarrow> k' = k \<or> Map_has m k'"
  by (auto simp: Map_has_keys keys_Map_set)

lemma distinct_Map_set: "distinct (map fst m) \<Longrightarrow> distinct (map fst (Map_set m k v))"
proof (induction m k v rule: Map_set.induct)
  case (1 k v)
  show ?case by simp
next
  case (2 k' v' m k v)
  have "fst ` set (Map_set m k v) = insert k (fst ` set m)" by (rule keys_Map_set)
  with 2 show ?case by auto
qed

section \<open>The search loop\<close>

lemma bfs_loop_Nil: "bfs_loop pm fm [] gens = Some gens"
  by (simp add: bfs_loop.simps)

lemma bfs_loop_skip:
  "Map_has gens h \<Longrightarrow> bfs_loop pm fm ((h, g) # rest) gens = bfs_loop pm fm rest gens"
  by (subst bfs_loop.simps) simp

lemma bfs_loop_visit:
  "\<not> Map_has gens h \<Longrightarrow>
   bfs_loop pm fm ((h, g) # rest) gens =
   bfs_loop pm fm (rest @ expand pm fm (Map_set gens h g) h g) (Map_set gens h g)"
  by (subst bfs_loop.simps) (simp add: expand_def Let_def split: option.split)

lemma finite_universe: "finite (universe fm)"
  by (auto simp: universe_def family_handles_def)

lemma enqueue_family_sub: "fst ` set (enqueue_family gens g fam) \<subseteq> family_handles fam"
  by (auto simp: enqueue_family_def family_handles_def split: option.splits)

lemma set_enqueue_families:
  "x \<in> set (enqueue_families fm gens g ids) \<longleftrightarrow>
     (\<exists>i \<in> set ids. \<exists>fam. Map_get fm i = Some fam \<and> x \<in> set (enqueue_family gens g fam))"
  by (induction ids) (auto simp: enqueue_families_def split: option.splits)

lemma Map_get_universe: "Map_get fm i = Some fam \<Longrightarrow> family_handles fam \<subseteq> universe fm"
  by (force simp: universe_def Map_get_def dest: map_of_SomeD)

lemma enqueue_families_sub: "fst ` set (enqueue_families fm gens g ids) \<subseteq> universe fm"
proof
  fix a assume "a \<in> fst ` set (enqueue_families fm gens g ids)"
  then obtain b i fam
    where "Map_get fm i = Some fam" "(a, b) \<in> set (enqueue_family gens g fam)"
    by (auto simp: set_enqueue_families)
  then show "a \<in> universe fm"
    using enqueue_family_sub[of gens g fam] Map_get_universe[of fm i fam] by force
qed

lemma expand_sub: "fst ` set (expand pm fm gens h g) \<subseteq> universe fm"
  using enqueue_families_sub[of fm gens g]
  by (cases "Map_get pm h") (simp_all add: expand_def)

text \<open>
  The induction principle of the loop. A turn that skips an assigned handle shortens the
  queue and leaves the pending handles as they are; a turn that visits a handle removes
  it from the pending handles, which are finitely many. So the pair of the number of
  pending handles and the length of the queue decreases lexicographically.
\<close>

lemma bfs_induct [case_names empty skip visit]:
  assumes empty: "\<And>gens. P [] gens"
    and skip: "\<And>h g rest gens. Map_has gens h \<Longrightarrow> P rest gens \<Longrightarrow> P ((h, g) # rest) gens"
    and visit: "\<And>h g rest gens. \<not> Map_has gens h \<Longrightarrow>
        P (rest @ expand pm fm (Map_set gens h g) h g) (Map_set gens h g) \<Longrightarrow>
        P ((h, g) # rest) gens"
  shows "P q gens"
proof -
  define r where
    "r = inv_image (less_than <*lex*> less_than)
           (\<lambda>(q, gens). (card (pending fm q gens), length q))"
  have wf: "wf r"
    unfolding r_def by (intro wf_inv_image wf_lex_prod wf_less_than)
  have "P (fst s) (snd s)" for s
    using wf
  proof (induction s rule: wf_induct_rule)
    case (less s)
    obtain q gens where s: "s = (q, gens)" by (cases s)
    show ?case
    proof (cases q)
      case Nil
      with s empty show ?thesis by simp
    next
      case (Cons x rest)
      obtain h g where x: "x = (h, g)" by (cases x)
      show ?thesis
      proof (cases "Map_has gens h")
        case True
        then have "pending fm rest gens = pending fm q gens"
          by (auto simp: pending_def Cons x Map_has_keys)
        then have "((rest, gens), s) \<in> r" by (simp add: r_def s Cons)
        from less[OF this] skip[OF True] show ?thesis by (simp add: s Cons x)
      next
        case False
        let ?q = "rest @ expand pm fm (Map_set gens h g) h g"
        let ?g = "Map_set gens h g"
        have fin: "finite (pending fm q gens)"
          by (simp add: pending_def finite_universe)
        have "pending fm ?q ?g \<subseteq> pending fm q gens - {h}"
          using expand_sub[of pm fm ?g h g] by (auto simp: pending_def keys_Map_set Cons x)
        moreover have "h \<in> pending fm q gens"
          using False by (simp add: pending_def Cons x Map_has_keys)
        ultimately have "pending fm ?q ?g \<subset> pending fm q gens" by blast
        then have "card (pending fm ?q ?g) < card (pending fm q gens)"
          using fin by (rule psubset_card_mono[rotated])
        then have "((?q, ?g), s) \<in> r" by (simp add: r_def s)
        from less[OF this] visit[OF False] show ?thesis by (simp add: s Cons x)
      qed
    qed
  qed
  from this[of "(q, gens)"] show ?thesis by simp
qed

lemma bfs_loop_total: "\<exists>G. bfs_loop pm fm q gens = Some G"
proof (induction q gens rule: bfs_induct[where pm = pm and fm = fm])
  case (empty gens)
  show ?case by (simp add: bfs_loop_Nil)
next
  case (skip h g rest gens)
  then show ?case by (simp add: bfs_loop_skip)
next
  case (visit h g rest gens)
  then show ?case by (simp add: bfs_loop_visit)
qed

lemma bfs_generations_total: "\<exists>B. bfs_generations people fams = Some B"
  unfolding bfs_generations_def by (rule bfs_loop_total)

lemma assignGenerations_total: "\<exists>G. assignGenerations people fams = Some G"
  using bfs_generations_total[of people fams] by (auto simp: assignGenerations_def)

lemma generateBookData_total: "\<exists>bd. generateBookData cmp today people fams name = Some bd"
  using assignGenerations_total[of people fams]
  by (auto simp: generateBookData_def Let_def)

section \<open>Assignments are final, and the first pair of a handle wins\<close>

lemma bfs_loop_stable:
  "bfs_loop pm fm q gens = Some G \<Longrightarrow> Map_get gens k = Some v \<Longrightarrow> Map_get G k = Some v"
proof (induction q gens rule: bfs_induct[where pm = pm and fm = fm])
  case (empty gens)
  then show ?case by (simp add: bfs_loop_Nil)
next
  case (skip h g rest gens)
  then show ?case by (simp add: bfs_loop_skip)
next
  case (visit h g rest gens)
  from visit.prems(2) visit.hyps have "k \<noteq> h" by (auto simp: Map_has_get)
  with visit show ?case by (simp add: bfs_loop_visit Map_get_set)
qed

lemma bfs_loop_distinct:
  "bfs_loop pm fm q gens = Some G \<Longrightarrow> distinct (map fst gens) \<Longrightarrow> distinct (map fst G)"
proof (induction q gens rule: bfs_induct[where pm = pm and fm = fm])
  case (empty gens)
  then show ?case by (simp add: bfs_loop_Nil)
next
  case (skip h g rest gens)
  then show ?case by (simp add: bfs_loop_skip)
next
  case (visit h g rest gens)
  then show ?case by (simp add: bfs_loop_visit distinct_Map_set)
qed

text \<open>First assignment wins: an unassigned handle gets the generation of its first pair in the queue.\<close>

lemma bfs_loop_first_wins:
  "bfs_loop pm fm q gens = Some G \<Longrightarrow> \<not> Map_has gens k \<Longrightarrow> map_of q k = Some v \<Longrightarrow>
   Map_get G k = Some v"
proof (induction q gens rule: bfs_induct[where pm = pm and fm = fm])
  case (empty gens)
  then show ?case by simp
next
  case (skip h g rest gens)
  from skip.prems(2) skip.hyps have "k \<noteq> h" by auto
  with skip show ?case by (simp add: bfs_loop_skip)
next
  case (visit h g rest gens)
  show ?case
  proof (cases "k = h")
    case True
    with visit.prems(3) have "v = g" by simp
    have "Map_get (Map_set gens h g) k = Some v"
      by (simp add: Map_get_set True \<open>v = g\<close>)
    with visit.prems(1) visit.hyps show ?thesis
      by (auto simp: bfs_loop_visit intro: bfs_loop_stable)
  next
    case False
    with visit.prems(3) have "map_of rest k = Some v" by simp
    then have "map_of (rest @ expand pm fm (Map_set gens h g) h g) k = Some v"
      by (simp add: map_of_append)
    moreover have "\<not> Map_has (Map_set gens h g) k"
      using False visit.prems(2) by (simp add: Map_has_set)
    ultimately show ?thesis
      using visit.IH visit.prems(1) visit.hyps by (simp add: bfs_loop_visit)
  qed
qed

section \<open>The fallback pass\<close>

lemma fallback_step_keeps:
  "Map_get gens k = Some v \<Longrightarrow> Map_get (fallback_step p gens) k = Some v"
  by (auto simp: fallback_step_def Map_get_set Map_has_get)

lemma fallback_keeps:
  "Map_get gens k = Some v \<Longrightarrow> Map_get (fallback people gens) k = Some v"
  unfolding fallback_def
  by (induction people arbitrary: gens) (auto intro: fallback_step_keeps)

lemma fallback_step_distinct:
  "distinct (map fst gens) \<Longrightarrow> distinct (map fst (fallback_step p gens))"
  by (simp add: fallback_step_def distinct_Map_set)

lemma fallback_distinct:
  "distinct (map fst gens) \<Longrightarrow> distinct (map fst (fallback people gens))"
  unfolding fallback_def
  by (induction people arbitrary: gens) (auto intro: fallback_step_distinct)

lemma fallback_step_has: "Map_has (fallback_step p gens) (handle p)"
  by (simp add: fallback_step_def Map_has_set)

lemma fallback_step_has_mono: "Map_has gens k \<Longrightarrow> Map_has (fallback_step p gens) k"
  by (simp add: fallback_step_def Map_has_set)

lemma fallback_has_mono: "Map_has gens k \<Longrightarrow> Map_has (fallback people gens) k"
  unfolding fallback_def
  by (induction people arbitrary: gens) (auto intro: fallback_step_has_mono)

lemma fallback_has: "p \<in> set people \<Longrightarrow> Map_has (fallback people gens) (handle p)"
proof (induction people arbitrary: gens)
  case Nil
  then show ?case by simp
next
  case (Cons a people)
  show ?case
  proof (cases "p = a")
    case True
    have "Map_has (fallback people (fallback_step a gens)) (handle a)"
      by (rule fallback_has_mono) (rule fallback_step_has)
    then show ?thesis by (simp add: fallback_def True)
  next
    case False
    with Cons.prems have "p \<in> set people" by simp
    from Cons.IH[OF this] show ?thesis by (simp add: fallback_def)
  qed
qed

text \<open>A person that is the first of the list with its handle (every person is, when
  handles are unique) and has no generation yet gets its fallback generation.\<close>

lemma fallback_sets_first:
  "find (\<lambda>q. handle q = handle p) people = Some p \<Longrightarrow> \<not> Map_has gens (handle p) \<Longrightarrow>
   Map_get (fallback people gens) (handle p) = Some (fallbackGen p)"
proof (induction people arbitrary: gens)
  case Nil
  then show ?case by simp
next
  case (Cons a people)
  show ?case
  proof (cases "handle a = handle p")
    case True
    with Cons.prems(1) have "a = p" by simp
    with Cons.prems(2) have "Map_get (fallback_step a gens) (handle p) = Some (fallbackGen p)"
      by (simp add: fallback_step_def Map_get_set)
    then have "Map_get (fallback people (fallback_step a gens)) (handle p) = Some (fallbackGen p)"
      by (rule fallback_keeps)
    then show ?thesis by (simp add: fallback_def)
  next
    case False
    with Cons.prems(1) have f: "find (\<lambda>q. handle q = handle p) people = Some p" by simp
    from False Cons.prems(2) have "\<not> Map_has (fallback_step a gens) (handle p)"
      by (auto simp: fallback_step_def Map_has_set)
    from Cons.IH[OF f this] show ?thesis by (simp add: fallback_def)
  qed
qed

lemma find_unique:
  "distinct (map handle people) \<Longrightarrow> p \<in> set people \<Longrightarrow>
   find (\<lambda>q. handle q = handle p) people = Some p"
  by (induction people) (auto simp: image_iff)

lemma count_key_distinct:
  "distinct (map fst m) \<Longrightarrow> k \<in> fst ` set m \<Longrightarrow> length (filter (\<lambda>e. fst e = k) m) = 1"
  by (induction m) (auto simp: filter_empty_conv image_iff)


lemma fallbackGen_nonzero: "fallbackGen p = spec_fallbackGen (nonzero (generation p))"
  by (cases "generation p") (auto simp: fallbackGen_def spec_fallbackGen_def nonzero_def)

lemma fallbackGen_hint: "generation p \<noteq> Some 0 \<Longrightarrow> fallbackGen p = spec_fallbackGen (generation p)"
  by (simp add: fallbackGen_nonzero nonzero_def)

lemma map_of_roots_queue:
  "p \<in> set rs \<Longrightarrow> map_of (map (\<lambda>r. (handle r, 0::int)) rs) (handle p) = Some 0"
  by (induction rs) auto

section \<open>Parent names, spouse and children\<close>

lemma parent_step_fst:
  "fst (parent_step pm fm pfId names) =
     (case (case Map_get fm pfId of None \<Rightarrow> None | Some pf \<Rightarrow> resolvedName pm (fatherHandle pf)) of
        None \<Rightarrow> fst names | Some n \<Rightarrow> Some n)"
  by (auto simp: parent_step_def resolvedName_def Let_def split: option.splits)

lemma parent_step_snd:
  "snd (parent_step pm fm pfId names) =
     (case (case Map_get fm pfId of None \<Rightarrow> None | Some pf \<Rightarrow> resolvedName pm (motherHandle pf)) of
        None \<Rightarrow> snd names | Some n \<Rightarrow> Some n)"
  by (auto simp: parent_step_def resolvedName_def Let_def split: option.splits)

lemma fold_last_candidate:
  "fold (\<lambda>x acc. case c x of None \<Rightarrow> acc | Some n \<Rightarrow> Some n) xs acc =
     (case last_option (List.map_filter c xs) of None \<Rightarrow> acc | Some n \<Rightarrow> Some n)"
  by (induction xs arbitrary: acc) (auto simp: last_option_def split: option.splits)

lemma fst_fold_parent_step:
  "fst (fold (parent_step pm fm) ids names) =
     fold (\<lambda>x acc. case (case Map_get fm x of None \<Rightarrow> None
                                | Some pf \<Rightarrow> resolvedName pm (fatherHandle pf)) of
                      None \<Rightarrow> acc | Some n \<Rightarrow> Some n) ids (fst names)"
  by (induction ids arbitrary: names) (simp_all add: parent_step_fst)

lemma snd_fold_parent_step:
  "snd (fold (parent_step pm fm) ids names) =
     fold (\<lambda>x acc. case (case Map_get fm x of None \<Rightarrow> None
                                | Some pf \<Rightarrow> resolvedName pm (motherHandle pf)) of
                      None \<Rightarrow> acc | Some n \<Rightarrow> Some n) ids (snd names)"
  by (induction ids arbitrary: names) (simp_all add: parent_step_snd)

lemma fold_parent_step_fst:
  "fst (fold (parent_step pm fm) ids names) =
     (case last_option (fatherCandidates pm fm ids) of None \<Rightarrow> fst names | Some n \<Rightarrow> Some n)"
  by (simp add: fst_fold_parent_step fold_last_candidate fatherCandidates_def)

lemma fold_parent_step_snd:
  "snd (fold (parent_step pm fm) ids names) =
     (case last_option (motherCandidates pm fm ids) of None \<Rightarrow> snd names | Some n \<Rightarrow> Some n)"
  by (simp add: snd_fold_parent_step fold_last_candidate motherCandidates_def)

text \<open>What the loop over \<open>parentFamilies\<close> leaves in the two names: each is the name
  that the last union with a resolving slot gives.\<close>

lemma parent_names_overwritten:
  "fatherName (bookPerson pm fm gens p) = last_option (fatherCandidates pm fm (parentFamilies p)) \<and>
   motherName (bookPerson pm fm gens p) = last_option (motherCandidates pm fm (parentFamilies p))"
  by (simp add: bookPerson_def Let_def parentNames_def fold_parent_step_fst fold_parent_step_snd
        split: option.splits)

lemma family_step_fields:
  "family_step pm fm p famId st =
     (case Map_get fm famId of
        None \<Rightarrow> st
      | Some fam \<Rightarrow>
          (case (if truthy_string (spouseHandle p fam)
                 then Map_get pm (the (spouseHandle p fam)) else None) of
             None \<Rightarrow> st\<lparr>st_children := st_children st @ childEntries pm fam\<rparr>
           | Some spouse \<Rightarrow>
               \<lparr>st_spouseName = Some (displayName spouse),
                st_spouseYears = Some (formatYears (birthYear spouse) (deathYear spouse) (isLiving spouse)),
                st_spouseNote = (if \<not> isPatrilineal spouse then Some NGOAI_TOC else st_spouseNote st),
                st_children = st_children st @ childEntries pm fam\<rparr>))"
  by (simp add: family_step_def Let_def split: option.splits)

lemma fold_family_step:
  "fold (family_step pm fm p) ids st =
     \<lparr>st_spouseName = (case last_option (spouseCandidates pm fm p ids) of
                         None \<Rightarrow> st_spouseName st | Some s \<Rightarrow> Some (displayName s)),
      st_spouseYears = (case last_option (spouseCandidates pm fm p ids) of
                         None \<Rightarrow> st_spouseYears st
                       | Some s \<Rightarrow> Some (formatYears (birthYear s) (deathYear s) (isLiving s))),
      st_spouseNote = (if \<exists>s \<in> set (spouseCandidates pm fm p ids). \<not> isPatrilineal s
                       then Some NGOAI_TOC else st_spouseNote st),
      st_children = st_children st @ concat (map (childEntries pm) (resolvedFamilies fm ids))\<rparr>"
proof (induction ids arbitrary: st)
  case Nil
  show ?case
    by (simp add: spouseCandidates_def resolvedFamilies_def last_option_def)
next
  case (Cons a ids)
  show ?case
    unfolding fold_simps Cons.IH
    by (auto simp: family_step_fields spouseCandidates_def resolvedFamilies_def last_option_def
          split: option.splits)
qed

lemma spouse_fields:
  "spouseName (bookPerson pm fm gens p) =
     map_option displayName (last_option (spouseCandidates pm fm p (families p))) \<and>
   spouseYears (bookPerson pm fm gens p) =
     map_option (\<lambda>s. formatYears (birthYear s) (deathYear s) (isLiving s))
       (last_option (spouseCandidates pm fm p (families p))) \<and>
   spouseNote (bookPerson pm fm gens p) =
     (if \<exists>s \<in> set (spouseCandidates pm fm p (families p)). \<not> isPatrilineal s
      then Some NGOAI_TOC else None) \<and>
   bp_children (bookPerson pm fm gens p) =
     concat (map (childEntries pm) (resolvedFamilies fm (families p)))"
  by (simp add: bookPerson_def Let_def spouseAndChildren_def fold_family_step split: option.splits)

section \<open>Chapters\<close>

lemma Array_sort_key: "Array_sort (\<lambda>a b. k a - k b) xs = sort_key k xs"
proof -
  have "insert_by (\<lambda>a b. k a - k b) x ys = insort_key k x ys" for x ys
    by (induction ys) auto
  then have "insert_by (\<lambda>a b. k a - k b) = insort_key k" by (intro ext)
  then show ?thesis by (simp add: Array_sort_def sort_key_def)
qed

lemma chapterMembers_sort_key:
  "chapterMembers bps g = sort_key sortKey (filter (\<lambda>bp. bp_generation bp = g) bps)"
  by (simp add: chapterMembers_def Array_sort_key)

lemma buildChapters_members:
  "ch \<in> set (buildChapters bps mg) \<Longrightarrow>
   members ch = chapterMembers bps (ch_generation ch) \<and> members ch \<noteq> [] \<and>
   0 \<le> ch_generation ch \<and> ch_generation ch \<le> mg"
  by (auto simp: buildChapters_def Let_def split: if_splits)

lemma chapters_sorted_by_key:
  assumes "ch \<in> set (buildChapters bps mg)"
  shows "members ch \<noteq> [] \<and> sorted (map sortKey (members ch)) \<and>
         members ch = sort_key sortKey (filter (\<lambda>bp. bp_generation bp = ch_generation ch) bps)"
proof -
  from buildChapters_members[OF assms]
  have m: "members ch = chapterMembers bps (ch_generation ch)" and ne: "members ch \<noteq> []"
    by blast+
  have "sorted (map sortKey (members ch))"
    unfolding m chapterMembers_sort_key by (rule sorted_sort_key)
  with m ne show ?thesis by (simp add: chapterMembers_sort_key)
qed

lemma no_chapter_without_members:
  assumes "filter (\<lambda>bp. bp_generation bp = g) bps = []"
  shows "g \<notin> ch_generation ` set (buildChapters bps mg)"
proof
  assume "g \<in> ch_generation ` set (buildChapters bps mg)"
  then obtain ch where ch: "ch \<in> set (buildChapters bps mg)" and g: "g = ch_generation ch"
    by auto
  from buildChapters_members[OF ch] have "chapterMembers bps g \<noteq> []"
    unfolding g by metis
  with assms show False by (simp add: chapterMembers_sort_key)
qed

section \<open>Turns of the loop and what a visit pushes\<close>

lemma bfs_loop_turn:
  "bfs_loop pm fm (fst (bfs_turn pm fm (q, gens))) (snd (bfs_turn pm fm (q, gens))) =
   bfs_loop pm fm q gens"
proof (cases q)
  case Nil
  then show ?thesis by (simp add: bfs_turn_def)
next
  case (Cons x rest)
  obtain h g where "x = (h, g)" by (cases x)
  with Cons show ?thesis
    by (cases "Map_has gens h") (simp_all add: bfs_turn_def bfs_loop_skip bfs_loop_visit)
qed

lemma bfs_loop_turns:
  "(bfs_turn pm fm ^^ n) (q0, g0) = (q, gens) \<Longrightarrow> bfs_loop pm fm q gens = bfs_loop pm fm q0 g0"
proof (induction n arbitrary: q gens)
  case 0
  then show ?case by simp
next
  case (Suc n)
  obtain q' gens' where s: "(bfs_turn pm fm ^^ n) (q0, g0) = (q', gens')"
    by (cases "(bfs_turn pm fm ^^ n) (q0, g0)")
  with Suc.prems have "bfs_turn pm fm (q', gens') = (q, gens)" by simp
  then have "bfs_loop pm fm q gens = bfs_loop pm fm q' gens'"
    using bfs_loop_turn[of pm fm q' gens'] by simp
  with Suc.IH[OF s] show ?case by simp
qed

lemma set_enqueue_family:
  "(k, v) \<in> set (enqueue_family gens g fam) \<longleftrightarrow>
     \<not> Map_has gens k \<and>
     ((fatherHandle fam = Some k \<or> motherHandle fam = Some k) \<and> k \<noteq> [] \<and> v = g \<or>
      k \<in> set (children fam) \<and> v = g + 1)"
  by (auto simp: enqueue_family_def split: option.splits)

lemma set_expand:
  "(k, v) \<in> set (expand pm fm gens h g) \<longleftrightarrow>
     (\<exists>p. Map_get pm h = Some p \<and>
        (\<exists>i \<in> set (families p). \<exists>fam. Map_get fm i = Some fam \<and>
           (k, v) \<in> set (enqueue_family gens g fam)))"
  by (cases "Map_get pm h") (simp_all add: expand_def set_enqueue_families)

lemma set_resolvedFamilies:
  "f \<in> set (resolvedFamilies fm ids) \<longleftrightarrow> (\<exists>i \<in> set ids. Map_get fm i = Some f)"
  unfolding resolvedFamilies_def
  by (induction ids) (auto split: option.splits)

lemma map_of_uniform:
  assumes "k \<in> fst ` set q" and "\<forall>v. (k, v) \<in> set q \<longrightarrow> v = g"
  shows "map_of q k = Some g"
proof -
  from assms(1) obtain v where "map_of q k = Some v"
    by (cases "map_of q k") (auto simp: map_of_eq_None_iff)
  moreover from this have "(k, v) \<in> set q" by (rule map_of_SomeD)
  ultimately show ?thesis using assms(2) by simp
qed

text \<open>A visit of \<open>h\<close>: a handle that the visit pushes, and whose pairs in the queue all
  carry one generation, ends with that generation.\<close>

lemma visit_result:
  assumes B: "bfs_loop pm fm ((h, g) # rest) gens = Some B"
    and nh: "\<not> Map_has gens h"
    and xh: "x \<noteq> h" and nx: "\<not> Map_has gens x"
    and pushed: "(x, v) \<in> set (expand pm fm (Map_set gens h g) h g)"
    and uni: "\<forall>w. (x, w) \<in> set (rest @ expand pm fm (Map_set gens h g) h g) \<longrightarrow> w = v"
  shows "Map_get B x = Some v"
proof -
  let ?q = "rest @ expand pm fm (Map_set gens h g) h g"
  from B nh have "bfs_loop pm fm ?q (Map_set gens h g) = Some B"
    by (simp add: bfs_loop_visit)
  moreover have "\<not> Map_has (Map_set gens h g) x"
    using xh nx by (simp add: Map_has_set)
  moreover have "map_of ?q x = Some v"
  proof (rule map_of_uniform)
    from pushed show "x \<in> fst ` set ?q" by force
    from uni show "\<forall>w. (x, w) \<in> set ?q \<longrightarrow> w = v" .
  qed
  ultimately show ?thesis by (rule bfs_loop_first_wins)
qed

lemma visit_self:
  assumes B: "bfs_loop pm fm ((h, g) # rest) gens = Some B" and nh: "\<not> Map_has gens h"
  shows "Map_get B h = Some g"
proof -
  from B nh have "bfs_loop pm fm (rest @ expand pm fm (Map_set gens h g) h g) (Map_set gens h g) = Some B"
    by (simp add: bfs_loop_visit)
  moreover have "Map_get (Map_set gens h g) h = Some g" by (simp add: Map_get_set)
  ultimately show ?thesis by (rule bfs_loop_stable)
qed

text \<open>A handle that a turn visits has a generation from then on, so no later turn visits
  it; and the run reaches the empty queue, where the loop returns the generations.\<close>

lemma bfs_turn_has_mono: "Map_has (snd s) k \<Longrightarrow> Map_has (snd (bfs_turn pm fm s)) k"
  by (auto simp: bfs_turn_def Map_has_set split: list.splits)

lemma bfs_turns_has_mono:
  "Map_has (snd s) k \<Longrightarrow> Map_has (snd ((bfs_turn pm fm ^^ n) s)) k"
  by (induction n) (auto intro: bfs_turn_has_mono)

lemma visited_then_has: "visited s = Some h \<Longrightarrow> Map_has (snd (bfs_turn pm fm s)) h"
  by (auto simp: visited_def bfs_turn_def Map_has_set split: list.splits if_splits)

lemma has_not_visited: "Map_has (snd s) h \<Longrightarrow> visited s \<noteq> Some h"
  by (auto simp: visited_def split: list.splits)

lemma visited_once:
  assumes "i < j" and "visited ((bfs_turn pm fm ^^ i) s) = Some h"
  shows "visited ((bfs_turn pm fm ^^ j) s) \<noteq> Some h"
proof -
  from assms(1) obtain d where j: "j = d + Suc i" by (metis add.commute less_iff_Suc_add add_Suc_right)
  from assms(2) have "Map_has (snd ((bfs_turn pm fm ^^ Suc i) s)) h"
    by (simp add: visited_then_has)
  then have "Map_has (snd ((bfs_turn pm fm ^^ d) ((bfs_turn pm fm ^^ Suc i) s))) h"
    by (rule bfs_turns_has_mono)
  then have "Map_has (snd ((bfs_turn pm fm ^^ j) s)) h"
    by (simp only: j funpow_add o_apply)
  then show ?thesis by (rule has_not_visited)
qed

lemma bfs_turn_skip: "Map_has gens h \<Longrightarrow> bfs_turn pm fm ((h, g) # rest, gens) = (rest, gens)"
  by (simp add: bfs_turn_def)

lemma bfs_turn_visit:
  "\<not> Map_has gens h \<Longrightarrow>
   bfs_turn pm fm ((h, g) # rest, gens) =
     (rest @ expand pm fm (Map_set gens h g) h g, Map_set gens h g)"
  by (simp add: bfs_turn_def)

lemma bfs_run_finishes: "\<exists>n. fst ((bfs_turn pm fm ^^ n) (q, gens)) = []"
proof (induction q gens rule: bfs_induct[where pm = pm and fm = fm])
  case (empty gens)
  have "fst ((bfs_turn pm fm ^^ 0) ([], gens)) = []" by simp
  then show ?case by blast
next
  case (skip h g rest gens)
  then obtain n where "fst ((bfs_turn pm fm ^^ n) (rest, gens)) = []" by blast
  with skip.hyps have "fst ((bfs_turn pm fm ^^ Suc n) ((h, g) # rest, gens)) = []"
    by (simp add: funpow_swap1 bfs_turn_skip)
  then show ?case by blast
next
  case (visit h g rest gens)
  then obtain n where
    "fst ((bfs_turn pm fm ^^ n) (rest @ expand pm fm (Map_set gens h g) h g, Map_set gens h g)) = []"
    by blast
  with visit.hyps have "fst ((bfs_turn pm fm ^^ Suc n) ((h, g) # rest, gens)) = []"
    by (simp add: funpow_swap1 bfs_turn_visit)
  then show ?case by blast
qed

lemma bfs_run_result:
  assumes "fst ((bfs_turn pm fm ^^ n) (q, gens)) = []"
  shows "bfs_loop pm fm q gens = Some (snd ((bfs_turn pm fm ^^ n) (q, gens)))"
proof -
  obtain q' G where s: "(bfs_turn pm fm ^^ n) (q, gens) = (q', G)"
    by (cases "(bfs_turn pm fm ^^ n) (q, gens)")
  with assms have "q' = []" by simp
  with bfs_loop_turns[OF s] show ?thesis by (simp add: s bfs_loop_Nil)
qed

section \<open>The examples, evaluated\<close>

text \<open>The example of the specification resolves to A: 0, B: 0, C: 1; the entry of C
  records its parents and no spouse; B is in the name index and in no chapter.\<close>

lemma abc_generations:
  "assignGenerations abcPeople abcFamilies = Some [(''A'', 0), (''B'', 0), (''C'', 1)]"
  by code_simp

lemma abc_entries:
  "map (\<lambda>bp. (bp_handle bp, bp_generation bp, fatherName bp, motherName bp, spouseNote bp))
     (bookEntries (generateBookData exampleCompare ''d'' abcPeople abcFamilies None))
   = [(''A'', 0, None, None, Some NGOAI_TOC), (''C'', 1, Some ''A'', Some ''B'', None)]"
  by code_simp

text \<open>On the cycle the search returns, and each member has the generation of the path
  that reaches it first.\<close>

lemma cyclic_generations:
  "assignGenerations cyclicPeople cyclicFamilies =
     Some [(''R'', 0), (''W'', 0), (''A'', 1), (''B'', 2)]"
  by code_simp

text \<open>A hint is 1-based. Where a record carries the hint \<open>0\<close> all the same, the truthiness
  test of the fallback pass reads it as no hint.\<close>

lemma zero_hint_generation:
  "bfs_generations zeroHintPeople [] = Some [] \<and>
   assignGenerations zeroHintPeople [] = Some [(''Z'', 0)]"
  by code_simp

text \<open>Handles are unique. Where two records carry one handle all the same, the map has
  one entry for it, and the first record decides its fallback generation.\<close>

lemma duplicate_handle_generation:
  "assignGenerations duplicateHandlePeople [] = Some [(''Z'', 2)]"
  by code_simp

section \<open>Claims\<close>

text \<open>
  Claim C10. From every state (person map and family map, cyclic or not, queue, partial
  assignment) the search loop terminates: after finitely many turns the queue is empty,
  and the loop returns the generations of that moment. A handle that has a generation
  keeps it, and a handle without one gets the generation of its first pair in the queue:
  the path that reaches it first decides. No handle is visited twice: a handle that one
  turn visits is visited by no later turn. The resolver and the generator return on every
  input; the model has no error value, as the source has no \<open>throw\<close> and no cycle report.
\<close>

theorem resolver_terminates:
  "(\<exists>n G. fst ((bfs_turn pm fm ^^ n) (queue, generations)) = [] \<and>
          snd ((bfs_turn pm fm ^^ n) (queue, generations)) = G \<and>
          bfs_loop pm fm queue generations = Some G \<and>
          (\<forall>k v. Map_get generations k = Some v \<longrightarrow> Map_get G k = Some v) \<and>
          (\<forall>k v. \<not> Map_has generations k \<and> map_of queue k = Some v \<longrightarrow> Map_get G k = Some v)) \<and>
   (\<forall>i j h. i < j \<and> visited ((bfs_turn pm fm ^^ i) (queue, generations)) = Some h \<longrightarrow>
            visited ((bfs_turn pm fm ^^ j) (queue, generations)) \<noteq> Some h) \<and>
   (\<exists>G. assignGenerations people fams = Some G) \<and>
   (\<exists>bd. generateBookData localeCompare today people fams familyName' = Some bd)"
proof -
  obtain n where n: "fst ((bfs_turn pm fm ^^ n) (queue, generations)) = []"
    using bfs_run_finishes by blast
  let ?G = "snd ((bfs_turn pm fm ^^ n) (queue, generations))"
  have G: "bfs_loop pm fm queue generations = Some ?G"
    using n by (rule bfs_run_result)
  have stable: "\<forall>k v. Map_get generations k = Some v \<longrightarrow> Map_get ?G k = Some v"
    using bfs_loop_stable[OF G] by blast
  have first: "\<forall>k v. \<not> Map_has generations k \<and> map_of queue k = Some v \<longrightarrow> Map_get ?G k = Some v"
    using bfs_loop_first_wins[OF G] by blast
  have once: "\<forall>i j h. i < j \<and> visited ((bfs_turn pm fm ^^ i) (queue, generations)) = Some h \<longrightarrow>
            visited ((bfs_turn pm fm ^^ j) (queue, generations)) \<noteq> Some h"
    using visited_once[of _ _ pm fm "(queue, generations)"] by blast
  from n G stable first have
    "\<exists>n G. fst ((bfs_turn pm fm ^^ n) (queue, generations)) = [] \<and>
          snd ((bfs_turn pm fm ^^ n) (queue, generations)) = G \<and>
          bfs_loop pm fm queue generations = Some G \<and>
          (\<forall>k v. Map_get generations k = Some v \<longrightarrow> Map_get G k = Some v) \<and>
          (\<forall>k v. \<not> Map_has generations k \<and> map_of queue k = Some v \<longrightarrow> Map_get G k = Some v)"
    by blast
  with once assignGenerations_total[of people fams]
    generateBookData_total[of localeCompare today people fams familyName']
  show ?thesis by (intro conjI)
qed

text \<open>Claim C10 on the cycle, at the state after two turns: A waits twice in the queue; R
  keeps generation \<open>0\<close>, A gets the generation \<open>1\<close> of its first pair, and the turn
  after the visit of A does not visit A again.\<close>

theorem resolver_terminates_witness:
  "(bfs_turn (personMap cyclicPeople) (familyMap cyclicFamilies) ^^ 2)
      (map (\<lambda>r. (handle r, 0)) (roots cyclicPeople cyclicFamilies), [])
     = ([(''A'', 1), (''A'', 1)], [(''R'', 0), (''W'', 0)]) \<and>
   (\<exists>G. bfs_loop (personMap cyclicPeople) (familyMap cyclicFamilies)
           [(''A'', 1), (''A'', 1)] [(''R'', 0), (''W'', 0)] = Some G \<and>
        Map_get G ''R'' = Some 0 \<and> Map_get G ''A'' = Some 1) \<and>
   visited ([(''A'', 1::int), (''A'', 1)], [(''R'', 0::int), (''W'', 0)]) = Some ''A'' \<and>
   visited (bfs_turn (personMap cyclicPeople) (familyMap cyclicFamilies)
              ([(''A'', 1), (''A'', 1)], [(''R'', 0), (''W'', 0)])) \<noteq> Some ''A''"
proof -
  let ?pm = "personMap cyclicPeople" and ?fm = "familyMap cyclicFamilies"
  let ?q = "[(''A'', 1::int), (''A'', 1)]" and ?g = "[(''R'', 0::int), (''W'', 0)]"
  have run: "(bfs_turn ?pm ?fm ^^ 2) (map (\<lambda>r. (handle r, 0)) (roots cyclicPeople cyclicFamilies), [])
     = (?q, ?g)"
    by code_simp
  have r: "Map_get ?g ''R'' = Some 0" by code_simp
  have a: "\<not> Map_has ?g ''A'' \<and> map_of ?q ''A'' = Some 1" by code_simp
  have v: "visited (?q, ?g) = Some ''A''" by code_simp
  note t = resolver_terminates[of ?pm ?fm ?q ?g cyclicPeople cyclicFamilies exampleCompare "''d''" None]
  from t[THEN conjunct1] obtain n :: nat and G where
    G: "bfs_loop ?pm ?fm ?q ?g = Some G" and
    st: "\<forall>k v. Map_get ?g k = Some v \<longrightarrow> Map_get G k = Some v" and
    fi: "\<forall>k v. \<not> Map_has ?g k \<and> map_of ?q k = Some v \<longrightarrow> Map_get G k = Some v"
    by (elim exE conjE) (rule that)
  from st[rule_format, OF r] have gr: "Map_get G ''R'' = Some 0" .
  from fi[rule_format, OF a] have ga: "Map_get G ''A'' = Some 1" .
  from t[THEN conjunct2, THEN conjunct1, rule_format, of 0 "Suc 0" "''A''"] v
  have nv: "visited (bfs_turn ?pm ?fm (?q, ?g)) \<noteq> Some ''A''" by simp
  from G gr ga have "\<exists>G. bfs_loop ?pm ?fm ?q ?g = Some G \<and>
        Map_get G ''R'' = Some 0 \<and> Map_get G ''A'' = Some 1"
    by (intro exI[of _ G] conjI)
  with run v nv show ?thesis by (intro conjI)
qed

text \<open>
  Claim C9, as stated: the placeholder when no birth year is present, both years when both
  are present, birth and "present" for the living, the birth year alone otherwise. It
  fails where a year is \<open>0\<close>: \<open>!birth\<close> and \<open>if (death)\<close> test truthiness, so birth
  year \<open>0\<close> with death year \<open>2000\<close> prints the placeholder.
\<close>

theorem formatYears_zero_counterexample:
  "formatYears (Some 0) (Some 2000) False \<noteq> spec_formatYears (Some 0) (Some 2000) False"
  by code_simp

text \<open>
  Claim C9, amended: a year that is \<open>0\<close> counts as absent; with that reading of
  "present", the lifespan string is the one the claim describes, for every combination of
  birth year, death year and living flag.
\<close>

theorem formatYears_cases:
  "formatYears birth death living = spec_formatYears (nonzero birth) (nonzero death) living"
  by (cases birth; cases death) (auto simp: formatYears_def spec_formatYears_def nonzero_def)

text \<open>The amended claim at the examples of the specification.\<close>

theorem formatYears_cases_witness:
  "formatYears (Some 1950) None True = ''1950 '' @ en_dash @ '' nay'' \<and>
   formatYears (Some 1950) (Some 2000) False = ''1950 '' @ en_dash @ '' 2000'' \<and>
   formatYears None (Some 2000) True = em_dash \<and>
   formatYears (Some 1950) (Some 0) False = ''1950''"
proof -
  have "spec_formatYears (nonzero (Some 1950)) (nonzero None) True = ''1950 '' @ en_dash @ '' nay''"
    and "spec_formatYears (nonzero (Some 1950)) (nonzero (Some 2000)) False =
           ''1950 '' @ en_dash @ '' 2000''"
    and "spec_formatYears (nonzero None) (nonzero (Some 2000)) True = em_dash"
    and "spec_formatYears (nonzero (Some 1950)) (nonzero (Some 0)) False = ''1950''"
    by code_simp+
  with formatYears_cases[of "Some 1950" None True]
    formatYears_cases[of "Some 1950" "Some 2000" False]
    formatYears_cases[of None "Some 2000" True]
    formatYears_cases[of "Some 1950" "Some 0" False]
  show ?thesis by (simp only:)
qed

text \<open>
  Claim C1. For every input, the generation map that the generator builds has exactly one
  entry for the handle of every person of the input: the resolver returns a map, and
  each such handle is the key of one and only one of its entries.
\<close>

theorem every_person_assigned_once:
  "\<exists>G. assignGenerations people fams = Some G \<and>
       (\<forall>p \<in> set people. length (filter (\<lambda>e. fst e = handle p) G) = 1)"
proof -
  obtain B where B: "bfs_generations people fams = Some B"
    using bfs_generations_total by blast
  let ?G = "fallback people B"
  have G: "assignGenerations people fams = Some ?G"
    by (simp add: assignGenerations_def B)
  have "distinct (map fst B)"
    using B unfolding bfs_generations_def by (rule bfs_loop_distinct) simp
  then have d: "distinct (map fst ?G)" by (rule fallback_distinct)
  have "length (filter (\<lambda>e. fst e = handle p) ?G) = 1" if "p \<in> set people" for p
  proof -
    from that have "Map_has ?G (handle p)" by (rule fallback_has)
    then have "handle p \<in> fst ` set ?G" by (simp add: Map_has_keys)
    with d show ?thesis by (rule count_key_distinct)
  qed
  with G show ?thesis by blast
qed

text \<open>Claim C1 at the example of the specification.\<close>

theorem every_person_assigned_once_witness:
  "\<exists>G. assignGenerations abcPeople abcFamilies = Some G \<and>
       length (filter (\<lambda>e. fst e = ''A'') G) = 1 \<and>
       length (filter (\<lambda>e. fst e = ''B'') G) = 1 \<and>
       length (filter (\<lambda>e. fst e = ''C'') G) = 1"
  using every_person_assigned_once[of abcPeople abcFamilies]
  by (auto simp: abcPeople_def mkPerson_def)


text \<open>
  Claim C2. For every input, every valid root, that is every person whose lineage flag is
  set and whose handle is in no family's list of children, has generation \<open>0\<close> in the
  generation map: the pairs of the roots stand in the queue before every propagated pair,
  and the first pair of a handle wins.
\<close>

theorem roots_generation_zero:
  "\<exists>G. assignGenerations people fams = Some G \<and>
       (\<forall>p \<in> set people. isPatrilineal p \<and> handle p \<notin> childOfFamily fams \<longrightarrow>
          Map_get G (handle p) = Some 0)"
proof -
  obtain B where B: "bfs_generations people fams = Some B"
    using bfs_generations_total by blast
  let ?G = "fallback people B"
  have G: "assignGenerations people fams = Some ?G"
    by (simp add: assignGenerations_def B)
  have "Map_get ?G (handle p) = Some 0"
    if "p \<in> set people" "isPatrilineal p" "handle p \<notin> childOfFamily fams" for p
  proof -
    from that have "p \<in> set (roots people fams)" by (simp add: roots_def)
    then have "map_of (map (\<lambda>r. (handle r, 0::int)) (roots people fams)) (handle p) = Some 0"
      by (rule map_of_roots_queue)
    moreover have "\<not> Map_has [] (handle p)" by (simp add: Map_has_def)
    ultimately have "Map_get B (handle p) = Some 0"
      using B unfolding bfs_generations_def by (auto intro: bfs_loop_first_wins)
    then show ?thesis by (rule fallback_keeps)
  qed
  with G show ?thesis by blast
qed

text \<open>Claim C2 at the example of the specification: the root A.\<close>

theorem roots_generation_zero_witness:
  "\<exists>G. assignGenerations abcPeople abcFamilies = Some G \<and> Map_get G ''A'' = Some 0"
  using roots_generation_zero[of abcPeople abcFamilies]
  by (auto simp: abcPeople_def abcFamilies_def mkPerson_def childOfFamily_def)


text \<open>
  Claim C8. Every person that the search does not reach gets the hint less one when a hint
  is present, and generation \<open>0\<close> when no hint is present; every handle that the search
  reached keeps the generation of the search. The person is the one that carries its
  handle, which is the first of the list with that handle (handles are unique, so every
  person is); a hint is 1-based, so it is not \<open>0\<close>.
\<close>

theorem fallback_rule:
  "\<exists>B G. bfs_generations people fams = Some B \<and>
         assignGenerations people fams = Some G \<and>
         (\<forall>p \<in> set people.
            \<not> Map_has B (handle p) \<and> find (\<lambda>q. handle q = handle p) people = Some p \<and>
            generation p \<noteq> Some 0
            \<longrightarrow> Map_get G (handle p) = Some (spec_fallbackGen (generation p))) \<and>
         (\<forall>k. Map_has B k \<longrightarrow> Map_get G k = Map_get B k)"
proof -
  obtain B where B: "bfs_generations people fams = Some B"
    using bfs_generations_total by blast
  let ?G = "fallback people B"
  have G: "assignGenerations people fams = Some ?G"
    by (simp add: assignGenerations_def B)
  have 1: "Map_get ?G (handle p) = Some (spec_fallbackGen (generation p))"
    if "\<not> Map_has B (handle p)" "find (\<lambda>q. handle q = handle p) people = Some p"
      "generation p \<noteq> Some 0" for p
    using fallback_sets_first[OF that(2) that(1)] that(3) by (simp add: fallbackGen_hint)
  have 2: "Map_get ?G k = Map_get B k" if "Map_has B k" for k
    using that by (auto simp: Map_has_get intro: fallback_keeps)
  from B G 1 2 show ?thesis by blast
qed

text \<open>Claim C8 at a root A and two people apart from it: D with the hint \<open>3\<close> gets
  generation \<open>2\<close>, E without a hint gets \<open>0\<close>, A keeps its generation.\<close>

theorem fallback_rule_witness:
  "\<exists>B G. bfs_generations hintPeople [] = Some B \<and>
          assignGenerations hintPeople [] = Some G \<and>
          \<not> Map_has B ''D'' \<and> Map_get G ''D'' = Some 2 \<and>
          \<not> Map_has B ''E'' \<and> Map_get G ''E'' = Some 0 \<and>
          Map_has B ''A'' \<and> Map_get G ''A'' = Map_get B ''A''"
proof -
  let ?D = "mkPerson ''D'' False [] [] (Some 3)" and ?E = "mkPerson ''E'' False [] [] None"
  have b: "bfs_generations hintPeople [] = Some [(''A'', 0)]"
    by code_simp
  have fD: "find (\<lambda>q. handle q = handle ?D) hintPeople = Some ?D"
    and fE: "find (\<lambda>q. handle q = handle ?E) hintPeople = Some ?E"
    by code_simp+
  have mD: "?D \<in> set hintPeople" and mE: "?E \<in> set hintPeople"
    by (simp_all add: hintPeople_def)
  have hD: "generation ?D \<noteq> Some 0" and hE: "generation ?E \<noteq> Some 0"
    by (simp_all add: mkPerson_def)
  have sD: "spec_fallbackGen (generation ?D) = 2" and sE: "spec_fallbackGen (generation ?E) = 0"
    by (simp_all add: mkPerson_def spec_fallbackGen_def)
  have kD: "handle ?D = ''D''" and kE: "handle ?E = ''E''"
    by (simp_all add: mkPerson_def)
  from fallback_rule[of hintPeople "[]"] obtain B G where
    B: "bfs_generations hintPeople [] = Some B" and
    G: "assignGenerations hintPeople [] = Some G" and
    un: "\<forall>p \<in> set hintPeople.
            \<not> Map_has B (handle p) \<and> find (\<lambda>q. handle q = handle p) hintPeople = Some p \<and>
            generation p \<noteq> Some 0
            \<longrightarrow> Map_get G (handle p) = Some (spec_fallbackGen (generation p))" and
    re: "\<forall>k. Map_has B k \<longrightarrow> Map_get G k = Map_get B k"
    by (elim exE conjE) (rule that)
  from b B have B': "B = [(''A'', 0)]" by simp
  have nD: "\<not> Map_has B ''D''" and nE: "\<not> Map_has B ''E''" and hA: "Map_has B ''A''"
    by (simp_all add: B' Map_has_def)
  from un[rule_format, OF mD] nD fD hD have gD: "Map_get G ''D'' = Some 2"
    by (simp add: kD sD)
  from un[rule_format, OF mE] nE fE hE have gE: "Map_get G ''E'' = Some 0"
    by (simp add: kE sE)
  from re hA have gA: "Map_get G ''A'' = Map_get B ''A''" by blast
  from B G nD gD nE gE hA gA show ?thesis by (intro exI[of _ B] exI[of _ G] conjI)
qed

text \<open>
  Claim C5 at X, a child of two parent unions: the claim takes the parent names from the
  first union, F1 and M1, the union from which the same function takes the birth-order
  index of X (\<open>parentFamilies[0]\<close>, where X is child \<open>1\<close>; in the second union X is child
  \<open>2\<close>). The loop over \<open>parentFamilies\<close> has no \<open>break\<close>, so the second union
  overwrites the names: the entry of X pairs the parents F2 and M2 of the last union with
  the birth-order index of the first.
\<close>

theorem parent_names_from_last_union:
  "map (\<lambda>bp. (fatherName bp, motherName bp, childIndex bp))
     (filter (\<lambda>bp. bp_handle bp = ''X'')
        (bookEntries (generateBookData exampleCompare ''d'' twoUnionsPeople twoUnionsFamilies None)))
     = [(Some ''F2'', Some ''M2'', Some 1)] \<and>
   spec_parentNames (personMap twoUnionsPeople) (familyMap twoUnionsFamilies) (last twoUnionsPeople)
     = (Some ''F1'', Some ''M1'') \<and>
   map (\<lambda>f. indexOf (children f) ''X'' + 1) twoUnionsFamilies = [1, 2]"
  by code_simp

text \<open>
  Claim C4 at the remarried P: the spouse slot of P holds the name of S2, the spouse of the
  last union, and S2 is of the lineage, yet the note is the out-of-lineage note, left over
  from S1. The source sets the note when a spouse is not of the lineage and never clears
  it, so the note is not derived from the last union, as the claim says it is.
\<close>

theorem spouse_note_stale:
  "map (\<lambda>bp. (spouseName bp, spouseNote bp))
     (filter (\<lambda>bp. bp_handle bp = ''P'')
        (bookEntries (generateBookData exampleCompare ''d'' remarriedPeople remarriedFamilies None)))
     = [(Some ''S2'', Some NGOAI_TOC)] \<and>
   map isPatrilineal (filter (\<lambda>p. handle p = ''S2'') remarriedPeople) = [True]"
  by code_simp


text \<open>
  Claim C7, as stated: two invocations on the same people, unions and label yield the same
  book in every field. It fails for \<open>exportDate\<close>, which is read from the clock: the same
  arguments on two different days yield two different books.
\<close>

theorem export_date_counterexample:
  "generateBookData exampleCompare ''ngay 1'' abcPeople abcFamilies None \<noteq>
   generateBookData exampleCompare ''ngay 2'' abcPeople abcFamilies None"
  by code_simp

text \<open>
  Claim C7, amended: two invocations on the same people, unions, label and collation both
  return, and their books are equal in every field but \<open>exportDate\<close>, which is the date
  of the respective invocation; on the same date the two books are equal.
\<close>

theorem same_book_up_to_export_date:
  "\<exists>b1 b2. generateBookData localeCompare d1 people fams name = Some b1 \<and>
           generateBookData localeCompare d2 people fams name = Some b2 \<and>
           exportDate b1 = d1 \<and> exportDate b2 = d2 \<and> b2 = b1\<lparr>exportDate := d2\<rparr>"
proof -
  obtain G where "assignGenerations people fams = Some G"
    using assignGenerations_total by blast
  then show ?thesis by (simp add: generateBookData_def Let_def)
qed

text \<open>
  Claim C3. Let the search of \<open>generateBookData\<close> visit the handle \<open>h\<close> at generation
  \<open>g\<close>: after some number of turns \<open>h\<close> stands at the head of the queue and has no
  generation yet. Let \<open>fam\<close> be a union of the \<open>families\<close> of the person of \<open>h\<close>. Then
  \<open>h\<close> has generation \<open>g\<close> in the final map, and
  \<^item> every other parent of \<open>fam\<close> has generation \<open>g\<close>, and
  \<^item> every child of \<open>fam\<close> has generation \<open>g + 1\<close>,
  provided no earlier path assigns them first: the handle has no generation yet, every
  pair that waits for it in the queue carries that same generation, and among the unions
  of this person it has one role only (a parent is not also a child of one of them, a
  child not also a parent).
\<close>

theorem propagation_law:
  assumes run: "(bfs_turn (personMap people) (familyMap fams) ^^ n)
                  (map (\<lambda>r. (handle r, 0)) (roots people fams), []) = ((h, g) # rest, gens)"
    and nh: "\<not> Map_has gens h"
    and p: "Map_get (personMap people) h = Some p"
    and famId: "famId \<in> set (families p)"
    and fam: "Map_get (familyMap fams) famId = Some fam"
  shows "\<exists>G. assignGenerations people fams = Some G \<and> Map_get G h = Some g \<and>
           (\<forall>x. (fatherHandle fam = Some x \<or> motherHandle fam = Some x) \<and> x \<noteq> [] \<and> x \<noteq> h \<and>
                \<not> Map_has gens x \<and> (\<forall>v. (x, v) \<in> set rest \<longrightarrow> v = g) \<and>
                x \<notin> childrenOfUnions (familyMap fams) p
                \<longrightarrow> Map_get G x = Some g) \<and>
           (\<forall>c \<in> set (children fam).
                c \<noteq> h \<and> \<not> Map_has gens c \<and> (\<forall>v. (c, v) \<in> set rest \<longrightarrow> v = g + 1) \<and>
                c \<notin> parentsOfUnions (familyMap fams) p
                \<longrightarrow> Map_get G c = Some (g + 1))"
proof -
  let ?pm = "personMap people" and ?fm = "familyMap fams"
  let ?gens = "Map_set gens h g"
  obtain B where B0: "bfs_generations people fams = Some B"
    using bfs_generations_total by blast
  with bfs_loop_turns[OF run] have B: "bfs_loop ?pm ?fm ((h, g) # rest) gens = Some B"
    by (simp add: bfs_generations_def)
  let ?G = "fallback people B"
  have G: "assignGenerations people fams = Some ?G"
    by (simp add: assignGenerations_def B0)
  have self: "Map_get ?G h = Some g"
    by (rule fallback_keeps) (rule visit_self[OF B nh])
  have parent: "Map_get ?G x = Some g"
    if slot: "fatherHandle fam = Some x \<or> motherHandle fam = Some x" and "x \<noteq> []" "x \<noteq> h"
      and nx: "\<not> Map_has gens x" and pend: "\<forall>v. (x, v) \<in> set rest \<longrightarrow> v = g"
      and role: "x \<notin> childrenOfUnions ?fm p" for x
  proof -
    have nx': "\<not> Map_has ?gens x" using that by (simp add: Map_has_set)
    with slot \<open>x \<noteq> []\<close> have "(x, g) \<in> set (enqueue_family ?gens g fam)"
      by (simp add: set_enqueue_family)
    with p famId fam have pushed: "(x, g) \<in> set (expand ?pm ?fm ?gens h g)"
      by (auto simp: set_expand)
    have "w = g" if "(x, w) \<in> set (expand ?pm ?fm ?gens h g)" for w
    proof -
      from that p obtain i f where "i \<in> set (families p)" "Map_get ?fm i = Some f"
        "(x, w) \<in> set (enqueue_family ?gens g f)"
        by (auto simp: set_expand)
      moreover from this role have "x \<notin> set (children f)"
        by (auto simp: childrenOfUnions_def set_resolvedFamilies)
      ultimately show ?thesis by (auto simp: set_enqueue_family)
    qed
    with pend have "\<forall>w. (x, w) \<in> set (rest @ expand ?pm ?fm ?gens h g) \<longrightarrow> w = g" by auto
    from visit_result[OF B nh \<open>x \<noteq> h\<close> nx pushed this] show ?thesis by (rule fallback_keeps)
  qed
  have child: "Map_get ?G c = Some (g + 1)"
    if c: "c \<in> set (children fam)" and "c \<noteq> h"
      and nc: "\<not> Map_has gens c" and pend: "\<forall>v. (c, v) \<in> set rest \<longrightarrow> v = g + 1"
      and role: "c \<notin> parentsOfUnions ?fm p" for c
  proof -
    have nc': "\<not> Map_has ?gens c" using that by (simp add: Map_has_set)
    with c have "(c, g + 1) \<in> set (enqueue_family ?gens g fam)"
      by (simp add: set_enqueue_family)
    with p famId fam have pushed: "(c, g + 1) \<in> set (expand ?pm ?fm ?gens h g)"
      by (auto simp: set_expand)
    have "w = g + 1" if "(c, w) \<in> set (expand ?pm ?fm ?gens h g)" for w
    proof -
      from that p obtain i f where "i \<in> set (families p)" "Map_get ?fm i = Some f"
        "(c, w) \<in> set (enqueue_family ?gens g f)"
        by (auto simp: set_expand)
      moreover from this role have "fatherHandle f \<noteq> Some c" "motherHandle f \<noteq> Some c"
        by (auto simp: parentsOfUnions_def set_resolvedFamilies)
      ultimately show ?thesis by (auto simp: set_enqueue_family)
    qed
    with pend have "\<forall>w. (c, w) \<in> set (rest @ expand ?pm ?fm ?gens h g) \<longrightarrow> w = g + 1" by auto
    from visit_result[OF B nh \<open>c \<noteq> h\<close> nc pushed this] show ?thesis by (rule fallback_keeps)
  qed
  from G self parent child show ?thesis by blast
qed

text \<open>Claim C3 at the three generations: after two turns A is visited at generation \<open>1\<close>;
  his wife B gets generation \<open>1\<close> and their child C generation \<open>2\<close>.\<close>

theorem propagation_law_witness:
  "(bfs_turn (personMap threeGenPeople) (familyMap threeGenFamilies) ^^ 2)
      (map (\<lambda>r. (handle r, 0)) (roots threeGenPeople threeGenFamilies), [])
     = ((''A'', 1) # [(''A'', 1)], [(''R'', 0), (''W'', 0)]) \<and>
   (\<exists>G. assignGenerations threeGenPeople threeGenFamilies = Some G \<and>
        Map_get G ''A'' = Some 1 \<and> Map_get G ''B'' = Some 1 \<and> Map_get G ''C'' = Some 2)"
proof -
  let ?pm = "personMap threeGenPeople" and ?fm = "familyMap threeGenFamilies"
  let ?p = "mkPerson ''A'' True [''u2''] [''u1''] None"
  let ?fam = "\<lparr>fhandle = ''u2'', fatherHandle = Some ''A'', motherHandle = Some ''B'',
               children = [''C'']\<rparr>"
  have run: "(bfs_turn ?pm ?fm ^^ 2)
      (map (\<lambda>r. (handle r, 0)) (roots threeGenPeople threeGenFamilies), [])
     = ((''A'', 1) # [(''A'', 1)], [(''R'', 0), (''W'', 0)])"
    by code_simp
  have nh: "\<not> Map_has [(''R'', 0::int), (''W'', 0)] ''A''" by code_simp
  have p: "Map_get ?pm ''A'' = Some ?p" by code_simp
  have famId: "''u2'' \<in> set (families ?p)" by code_simp
  have fam: "Map_get ?fm ''u2'' = Some ?fam" by code_simp
  have cu: "''B'' \<notin> childrenOfUnions ?fm ?p" by code_simp
  have pu: "''C'' \<notin> parentsOfUnions ?fm ?p" by code_simp
  have nb: "\<not> Map_has [(''R'', 0::int), (''W'', 0)] ''B''"
    and nc: "\<not> Map_has [(''R'', 0::int), (''W'', 0)] ''C''" by code_simp+
  from propagation_law[OF run nh p famId fam] obtain G where
    G: "assignGenerations threeGenPeople threeGenFamilies = Some G" and
    a: "Map_get G ''A'' = Some 1" and
    par: "\<forall>x. (fatherHandle ?fam = Some x \<or> motherHandle ?fam = Some x) \<and> x \<noteq> [] \<and> x \<noteq> ''A'' \<and>
                \<not> Map_has [(''R'', 0::int), (''W'', 0)] x \<and>
                (\<forall>v. (x, v) \<in> set [(''A'', 1::int)] \<longrightarrow> v = 1) \<and>
                x \<notin> childrenOfUnions ?fm ?p
                \<longrightarrow> Map_get G x = Some 1" and
    chi: "\<forall>c \<in> set (children ?fam).
                c \<noteq> ''A'' \<and> \<not> Map_has [(''R'', 0::int), (''W'', 0)] c \<and>
                (\<forall>v. (c, v) \<in> set [(''A'', 1::int)] \<longrightarrow> v = 1 + 1) \<and>
                c \<notin> parentsOfUnions ?fm ?p
                \<longrightarrow> Map_get G c = Some (1 + 1)"
    by (elim exE conjE) (rule that)
  from par[rule_format, of "''B''"] nb cu have b: "Map_get G ''B'' = Some 1" by simp
  from chi[rule_format, of "''C''"] nc pu have c: "Map_get G ''C'' = Some 2" by simp
  from G a b c have "\<exists>G. assignGenerations threeGenPeople threeGenFamilies = Some G \<and>
        Map_get G ''A'' = Some 1 \<and> Map_get G ''B'' = Some 1 \<and> Map_get G ''C'' = Some 2"
    by (intro exI[of _ G] conjI)
  with run show ?thesis by (rule conjI)
qed

text \<open>
  Claim C6 at the hundred siblings and the root Q, all of generation \<open>0\<close>: the entry of Q
  has no birth-order index and stands before the entry of the hundredth child, whose
  index is \<open>100\<close>. The comparator reads a missing index as \<open>99\<close>, which is not above
  every index, so an entry without index is not sorted after all indexed entries.
\<close>

theorem missing_index_not_last:
  "map (\<lambda>bp. (bp_handle bp, bp_generation bp, childIndex bp))
     (drop 98 (bookEntries (generateBookData exampleCompare ''d'' bigFamilyPeople bigFamilyFamilies None)))
   = [(''c99'', 0, Some 99), (''Q'', 0, None), (''c100'', 0, Some 100)]"
  by code_simp

end
